theory Spec2Isabelle
  imports Complex_Main
begin

section \<open>The transition list of the crystallization model\<close>

text \<open>
  Cell states are Python integers: 0 is fluid, 1 is a particle, 2 is crystal. A pair
  state is the tuple the source passes to the \<open>Transition\<close> constructor: the states of
  the two cells of a link and the orientation of the link (0 horizontal, 1 vertical).
  The rates of the source are the float literals \<open>50.\<close> and \<open>100.\<close>, which are whole
  numbers and therefore exact; they are read as reals.
\<close>

type_synonym pair_state = "int \<times> int \<times> int"

record transition =
  from_state :: pair_state
  to_state :: pair_state
  rate :: real
  name :: string

definition Transition :: "pair_state \<Rightarrow> pair_state \<Rightarrow> real \<Rightarrow> string \<Rightarrow> transition" where
  "Transition f t r n = \<lparr>from_state = f, to_state = t, rate = r, name = n\<rparr>"

definition tail_state :: "pair_state \<Rightarrow> int" where
  "tail_state p = fst p"

definition head_state :: "pair_state \<Rightarrow> int" where
  "head_state p = fst (snd p)"

definition orientation :: "pair_state \<Rightarrow> int" where
  "orientation p = snd (snd p)"

text \<open>\<open>xn_list.append(x)\<close>: the list with \<open>x\<close> added at its end.\<close>

definition append_py :: "'a list \<Rightarrow> 'a \<Rightarrow> 'a list" where
  "append_py xs x = xs @ [x]"

definition setup_transition_list :: "transition list" where
  "setup_transition_list =
     (let xn_list = [];
          xn_list = append_py xn_list (Transition (0,1,0) (1,0,0) 50 ''left motion'');
          xn_list = append_py xn_list (Transition (1,0,0) (0,1,0) 50 ''right motion'');
          xn_list = append_py xn_list (Transition (0,1,1) (1,0,1) 50 ''down motion'');
          xn_list = append_py xn_list (Transition (1,0,1) (0,1,1) 50 ''up motion'');
          xn_list = append_py xn_list (Transition (1,2,1) (2,2,1) 100 ''down capture'');
          xn_list = append_py xn_list (Transition (2,1,1) (2,2,1) 100 ''up capture'');
          xn_list = append_py xn_list (Transition (1,2,0) (2,2,1) 100 ''left capture'');
          xn_list = append_py xn_list (Transition (2,1,0) (2,2,1) 100 ''right capture'')
      in xn_list)"

text \<open>The dictionary \<open>ns_dict\<close> of \<open>main\<close>: the declared node states and their names.\<close>

definition ns_dict :: "int \<rightharpoonup> string" where
  "ns_dict = [0 \<mapsto> ''fluid'', 1 \<mapsto> ''particle'', 2 \<mapsto> ''crystal'']"

section \<open>The initial node states and the run loop of \<open>main\<close>\<close>

text \<open>
  The grid object \<open>mg\<close> comes from the grid library. \<open>main\<close> reads two things of it:
  the array \<open>node_y\<close> (one y coordinate per node) and the array
  \<open>closed_boundary_nodes\<close> (the ids of the nodes at the closed edges). They are taken
  as given; the number of nodes is the length of \<open>node_y\<close>.
\<close>

datatype error = IndexError

record grid =
  node_y :: "real list"
  closed_boundary_nodes :: "nat list"

definition number_of_nodes :: "grid \<Rightarrow> nat" where
  "number_of_nodes mg = length (node_y mg)"

definition nr :: int where
  "nr = 100"

definition nc :: int where
  "nc = 64"

text \<open>\<open>mg.add_zeros('node', 'node_state_map', dtype=int)\<close>: one zero per node.\<close>

definition add_zeros :: "grid \<Rightarrow> int list" where
  "add_zeros mg = replicate (number_of_nodes mg) 0"

text \<open>\<open>where(cond)[0]\<close>: the indices at which the condition holds, in ascending order.\<close>

definition where_py :: "('a \<Rightarrow> bool) \<Rightarrow> 'a list \<Rightarrow> nat list" where
  "where_py p ys = filter (\<lambda>i. p (ys ! i)) [0..<length ys]"

text \<open>
  \<open>arr[idx] = v\<close> with an index array: every listed position is set to \<open>v\<close>; an index
  that is not a position of the array raises \<open>IndexError\<close>.
\<close>

definition assign_at :: "int list \<Rightarrow> nat list \<Rightarrow> int \<Rightarrow> error + int list" where
  "assign_at arr idx v =
     (if \<forall>i\<in>set idx. i < length arr
      then Inr (fold (\<lambda>i a. a[i := v]) idx arr)
      else Inl IndexError)"

text \<open>
  Lines 115 to 127 of \<open>main\<close>. The thresholds \<open>0.1*nr\<close> and \<open>0.5*nr\<close> are the floats
  10.0 and 50.0 (the product \<open>0.1*100\<close> rounds to 10.0), so the real products are the
  values the program compares with.
\<close>

definition initial_node_state :: "grid \<Rightarrow> error + int list" where
  "initial_node_state mg =
     (let node_state_grid = add_zeros mg;
          bottom_rows = where_py (\<lambda>y. y < 0.1 * real_of_int nr) (node_y mg)
      in case assign_at node_state_grid bottom_rows 1 of
           Inl e \<Rightarrow> Inl e
         | Inr node_state_grid \<Rightarrow>
             (let seed_crystal_rows = where_py (\<lambda>y. y > 0.5 * real_of_int nr) (node_y mg)
              in case assign_at node_state_grid seed_crystal_rows 2 of
                   Inl e \<Rightarrow> Inl e
                 | Inr node_state_grid \<Rightarrow>
                     assign_at node_state_grid (closed_boundary_nodes mg) 0))"

text \<open>
  The run loop, lines 146 to 159. The loop variable is \<open>current_time\<close>; \<open>calls\<close>
  records the target time of every call of \<open>ca.run\<close>, in order. The progress report
  reads the wall clock and changes neither. All times are multiples of 0.5 up to 30, which
  floats represent and add exactly, so they are read as reals.
\<close>

definition plot_interval :: real where
  "plot_interval = 0.5"

definition run_duration :: real where
  "run_duration = 30.0"

function run_loop :: "real \<Rightarrow> real list \<Rightarrow> real \<times> real list" where
  "run_loop current_time calls =
     (if current_time < run_duration
      then run_loop (current_time + plot_interval) (calls @ [current_time + plot_interval])
      else (current_time, calls))"
  by pat_completeness auto
termination
proof (relation "measure (\<lambda>(t, calls). nat \<lceil>(run_duration - t) / plot_interval\<rceil>)")
  show "wf (measure (\<lambda>(t, calls). nat \<lceil>(run_duration - t) / plot_interval\<rceil>))" by simp
next
  fix current_time :: real and calls :: "real list"
  assume lt: "current_time < run_duration"
  have "\<lceil>(run_duration - (current_time + plot_interval)) / plot_interval\<rceil>
      = \<lceil>(run_duration - current_time) / plot_interval\<rceil> - 1"
    by (simp add: plot_interval_def run_duration_def) linarith
  moreover from lt have "0 < \<lceil>(run_duration - current_time) / plot_interval\<rceil>"
    by (simp add: plot_interval_def run_duration_def)
  ultimately show "((current_time + plot_interval, calls @ [current_time + plot_interval]),
       (current_time, calls)) \<in> measure (\<lambda>(t, calls). nat \<lceil>(run_duration - t) / plot_interval\<rceil>)"
    by simp
qed

declare run_loop.simps [simp del]

definition main_run_calls :: "real list" where
  "main_run_calls = snd (run_loop 0.0 [])"

definition main_final_time :: real where
  "main_final_time = fst (run_loop 0.0 [])"

section \<open>Applying a rule to the two cells of a link\<close>

text \<open>
  Modelled from the spec: the engine that executes the rules is the library class the
  source instantiates, and is not part of the source. Section 4.4, step 5: the
  destination pair state is applied to the two endpoint cells of the link, the first
  component written to the from-cell and the second to the to-cell. A rule fires on a
  link only when the pair state derived from the cells is the rule's source (section 3).
\<close>

definition apply_destination :: "int list \<Rightarrow> nat \<Rightarrow> nat \<Rightarrow> pair_state \<Rightarrow> int list" where
  "apply_destination cells i j d = (cells[i := tail_state d])[j := head_state d]"

text \<open>
  Modelled from the spec: section 3, the pair state of a link is derived from the
  current states of its two cells and the orientation of the link.
\<close>

definition derive_pair_state :: "int list \<Rightarrow> nat \<Rightarrow> nat \<Rightarrow> int \<Rightarrow> pair_state" where
  "derive_pair_state cells i j ori = (cells ! i, cells ! j, ori)"

text \<open>
  Modelled from the spec: section 3, a link is an ordered pair of adjacent cells and an
  orientation tag.
\<close>

record link =
  from_cell :: nat
  to_cell :: nat
  link_orientation :: int

text \<open>
  Modelled from the spec: section 4.4, steps 4 and 5, the execution of one event. A firing
  names a link and the rule that fires on it. It is enabled when the two cells of the
  link exist and are distinct, and the derived pair state is the source of the rule; it
  then applies the destination of the rule. \<open>fire_all\<close> executes a sequence of firings.
\<close>

record firing = link +
  fired_rule :: transition

text \<open>
  Modelled from the spec: section 4.4, step 3 and 4, an event is executed on a link whose
  current pair state has the rule; both cells must exist and differ.
\<close>

definition enabled :: "int list \<Rightarrow> firing \<Rightarrow> bool" where
  "enabled cells f \<longleftrightarrow>
     from_cell f < length cells \<and> to_cell f < length cells \<and> from_cell f \<noteq> to_cell f
     \<and> derive_pair_state cells (from_cell f) (to_cell f) (link_orientation f)
         = from_state (fired_rule f)"

text \<open>
  Modelled from the spec: section 4.4, step 5, the destination of the rule is applied to the
  two cells of the link; nothing happens when the firing is not enabled.
\<close>

definition fire :: "int list \<Rightarrow> firing \<Rightarrow> int list option" where
  "fire cells f =
     (if enabled cells f
      then Some (apply_destination cells (from_cell f) (to_cell f) (to_state (fired_rule f)))
      else None)"

text \<open>
  Modelled from the spec: section 4.4, step 7, events are executed one after the other.
\<close>

fun fire_all :: "int list \<Rightarrow> firing list \<Rightarrow> int list option" where
  "fire_all cells [] = Some cells"
| "fire_all cells (f # fs) =
     (case fire cells f of None \<Rightarrow> None | Some cells' \<Rightarrow> fire_all cells' fs)"

text \<open>
  A capture rule, as the conservation property names it: the two cells of the source
  are one particle and one crystal, and both cells of the destination are crystal.
\<close>

definition is_capture :: "transition \<Rightarrow> bool" where
  "is_capture r \<longleftrightarrow>
     ((tail_state (from_state r) = 1 \<and> head_state (from_state r) = 2)
      \<or> (tail_state (from_state r) = 2 \<and> head_state (from_state r) = 1))
     \<and> tail_state (to_state r) = 2 \<and> head_state (to_state r) = 2"

section \<open>The automaton engine\<close>

text \<open>
  Modelled from the spec: the engine, its link registry and its scheduler are the library
  classes the source instantiates (\<open>OrientedRasterCTS\<close>), and are not part of the source.
  Section 6: the lattice topology gives the number of cells, the adjacencies and the
  boundary flag of every cell. The links are the adjacencies, each an ordered pair of
  cells with an orientation (section 3); a link is named by its position in this list.
\<close>

record lattice =
  cell_count :: nat
  links :: "link list"
  is_boundary :: "nat \<Rightarrow> bool"

text \<open>
  Modelled from the spec: section 4.1, \<open>rules_for\<close> is the sequence of destinations and
  rates of the rules whose source is the pair state, in the order of the rule list, and
  \<open>total_rate\<close> is the sum of their rates, 0 when there is none.
\<close>

definition rules_for :: "transition list \<Rightarrow> pair_state \<Rightarrow> (pair_state \<times> real) list" where
  "rules_for table ps = map (\<lambda>r. (to_state r, rate r)) (filter (\<lambda>r. from_state r = ps) table)"

text \<open>
  Modelled from the spec: section 4.1, \<open>total_rate\<close> is the sum of the rates of
  \<open>rules_for\<close>, 0 when no rule is registered.
\<close>

definition total_rate :: "transition list \<Rightarrow> pair_state \<Rightarrow> real" where
  "total_rate table ps = sum_list (map snd (rules_for table ps))"

text \<open>
  Modelled from the spec: section 4.2, the pair state of a link is read from the current
  states of its two cells. A link is active when the total rate of its pair state is
  positive and no boundary cell is at either of its ends (section 3: the links incident
  to a boundary cell are permanently inert).
\<close>

definition link_pair_state :: "int list \<Rightarrow> link \<Rightarrow> pair_state" where
  "link_pair_state cs l = derive_pair_state cs (from_cell l) (to_cell l) (link_orientation l)"

text \<open>
  Modelled from the spec: section 4.2, \<open>is_active\<close>: the total rate is positive and no
  boundary cell is at either end of the link.
\<close>

definition is_active :: "transition list \<Rightarrow> lattice \<Rightarrow> int list \<Rightarrow> link \<Rightarrow> bool" where
  "is_active table lat cs l \<longleftrightarrow>
     total_rate table (link_pair_state cs l) > 0
     \<and> \<not> is_boundary lat (from_cell l) \<and> \<not> is_boundary lat (to_cell l)"

text \<open>
  Modelled from the spec: section 3, an event carries its absolute time, its link and the
  epoch of the link when it was scheduled. The random numbers are those of a seeded
  generator: its standard exponential variates, from which waiting times are made, and
  its uniform variates, which choose among competing channels. The engine owns the cell
  states, the epoch of every link, the queue of pending events, the clock and the count
  of the random numbers it has drawn.
\<close>

record event =
  ev_time :: real
  ev_link :: nat
  ev_epoch :: nat

text \<open>
  Modelled from the spec: section 5, the random-number generator with its seed: the
  sequences of its exponential and of its uniform variates.
\<close>

record rng =
  waiting_draw :: "nat \<Rightarrow> real"
  channel_draw :: "nat \<Rightarrow> real"

text \<open>
  Modelled from the spec: section 3 and section 5, the state the engine owns.
\<close>

record engine =
  node_state :: "int list"
  epoch :: "nat \<Rightarrow> nat"
  queue :: "event list"
  clock :: real
  draws :: nat

text \<open>
  Modelled from the spec: section 4.3, \<open>schedule\<close> draws an exponential waiting time with
  the total rate as rate parameter and pushes an event at \<open>now\<close> plus that time.
\<close>

definition schedule :: "rng \<Rightarrow> nat \<Rightarrow> nat \<Rightarrow> real \<Rightarrow> real \<Rightarrow> engine \<Rightarrow> engine" where
  "schedule rnd k ep rt now s =
     s\<lparr>queue := queue s @ [\<lparr>ev_time = now + waiting_draw rnd (draws s) / rt,
                               ev_link = k, ev_epoch = ep\<rparr>],
       draws := Suc (draws s)\<rparr>"

text \<open>
  Modelled from the spec: section 4.2, \<open>on_cell_changed\<close> visits every link incident to
  the cell: it advances the epoch of the link, which cancels any event scheduled for it,
  and asks for a new event when the link is active now.
\<close>

definition incident :: "lattice \<Rightarrow> nat \<Rightarrow> nat list" where
  "incident lat c =
     filter (\<lambda>k. from_cell (links lat ! k) = c \<or> to_cell (links lat ! k) = c)
       [0..<length (links lat)]"

text \<open>
  Modelled from the spec: section 4.2, what \<open>on_cell_changed\<close> does for one incident link:
  the epoch advances, and an active link is scheduled under the new epoch.
\<close>

definition rederive :: "transition list \<Rightarrow> lattice \<Rightarrow> rng \<Rightarrow> nat \<Rightarrow> engine \<Rightarrow> engine" where
  "rederive table lat rnd k s =
     (let s1 = s\<lparr>epoch := (epoch s)(k := Suc (epoch s k))\<rparr>;
          l = links lat ! k
      in if is_active table lat (node_state s1) l
         then schedule rnd k (epoch s1 k) (total_rate table (link_pair_state (node_state s1) l))
                (clock s1) s1
         else s1)"

text \<open>
  Modelled from the spec: section 4.2, \<open>on_cell_changed\<close> over all incident links.
\<close>

definition on_cell_changed :: "transition list \<Rightarrow> lattice \<Rightarrow> rng \<Rightarrow> nat \<Rightarrow> engine \<Rightarrow> engine" where
  "on_cell_changed table lat rnd c s = fold (rederive table lat rnd) (incident lat c) s"

text \<open>
  Modelled from the spec: section 4.3, \<open>pop_next\<close> takes the entry with the least time
  (the first such entry of the queue); the scheduler checks nothing else.
\<close>

fun next_event :: "event list \<Rightarrow> event option" where
  "next_event [] = None"
| "next_event (e # es) =
     (case next_event es of
        None \<Rightarrow> Some e
      | Some m \<Rightarrow> if ev_time e \<le> ev_time m then Some e else Some m)"

text \<open>
  Modelled from the spec: section 4.4, step 4. A single candidate is taken as it is; among
  several, one is sampled in proportion to its rate, from a uniform draw scaled by the
  total rate.
\<close>

fun pick_channel :: "(pair_state \<times> real) list \<Rightarrow> real \<Rightarrow> pair_state option" where
  "pick_channel [] x = None"
| "pick_channel [c] x = Some (fst c)"
| "pick_channel (c # cs) x = (if x < snd c then Some (fst c) else pick_channel cs (x - snd c))"

text \<open>
  Modelled from the spec: section 4.4, one turn of the loop of \<open>run_until\<close>. It ends the
  call when the queue is empty or the next event lies beyond the target time (the clock
  is set to the target); it drops a stale event; otherwise it sets the clock to the time
  of the event, applies the destination to the two cells of the link and calls
  \<open>on_cell_changed\<close> for both. An event whose link has no rule is the fault of section 7.
\<close>

datatype outcome = Done engine | Continue engine | Fault

text \<open>
  Modelled from the spec: section 4.4, steps 4 to 6, the execution of a live event.
\<close>

definition execute :: "transition list \<Rightarrow> lattice \<Rightarrow> rng \<Rightarrow> event \<Rightarrow> engine \<Rightarrow> outcome" where
  "execute table lat rnd ev s =
     (let s2 = s\<lparr>clock := ev_time ev\<rparr>;
          l = links lat ! ev_link ev;
          ps = link_pair_state (node_state s2) l;
          cands = rules_for table ps
      in case pick_channel cands (channel_draw rnd (draws s2) * total_rate table ps) of
           None \<Rightarrow> Fault
         | Some d \<Rightarrow>
             (let s3 = s2\<lparr>node_state := apply_destination (node_state s2) (from_cell l) (to_cell l) d,
                          draws := (if length cands > 1 then Suc (draws s2) else draws s2)\<rparr>;
                  s4 = on_cell_changed table lat rnd (from_cell l) s3;
                  s5 = on_cell_changed table lat rnd (to_cell l) s4
              in Continue s5))"

text \<open>
  Modelled from the spec: section 4.4, steps 1 to 3, then the execution.
\<close>

definition engine_step :: "transition list \<Rightarrow> lattice \<Rightarrow> rng \<Rightarrow> real \<Rightarrow> engine \<Rightarrow> outcome" where
  "engine_step table lat rnd target s =
     (case next_event (queue s) of
        None \<Rightarrow> Done (s\<lparr>clock := target\<rparr>)
      | Some ev \<Rightarrow>
          if ev_time ev > target then Done (s\<lparr>clock := target\<rparr>)
          else (let s1 = s\<lparr>queue := remove1 ev (queue s)\<rparr>
                in if ev_epoch ev \<noteq> epoch s1 (ev_link ev) then Continue s1
                   else execute table lat rnd ev s1))"

text \<open>
  Modelled from the spec: section 4.4, \<open>run_until\<close> repeats the turn until it ends the
  call. The number of turns is not bounded by the spec, so the model counts them down
  from a given number and answers \<open>Continue\<close> when they are used up.
\<close>

fun run_until :: "nat \<Rightarrow> transition list \<Rightarrow> lattice \<Rightarrow> rng \<Rightarrow> real \<Rightarrow> engine \<Rightarrow> outcome" where
  "run_until 0 table lat rnd target s = Continue s"
| "run_until (Suc n) table lat rnd target s =
     (case engine_step table lat rnd target s of
        Continue s' \<Rightarrow> run_until n table lat rnd target s'
      | r \<Rightarrow> r)"

text \<open>
  Modelled from the spec: section 6, the engine is built from the rules, the lattice, the
  seed and the initial cell states; every link is derived once, which schedules the
  active ones.
\<close>

definition create_engine :: "transition list \<Rightarrow> lattice \<Rightarrow> rng \<Rightarrow> int list \<Rightarrow> engine" where
  "create_engine table lat rnd init =
     fold (rederive table lat rnd) [0..<length (links lat)]
       \<lparr>node_state = init, epoch = (\<lambda>k. 0), queue = [], clock = 0, draws = 0\<rparr>"

text \<open>The state an outcome leaves; a fault leaves none.\<close>

fun after :: "outcome \<Rightarrow> engine option" where
  "after (Done s) = Some s"
| "after (Continue s) = Some s"
| "after Fault = None"

text \<open>
  Modelled from the spec: section 4.4, the engine is re-entrant: calls of \<open>run_until\<close>
  follow each other on the state the last one left. So the states an engine can be in
  are the state after construction and every state a turn of the loop leaves, whatever
  the target time of the call the turn belongs to.
\<close>

inductive reachable :: "transition list \<Rightarrow> lattice \<Rightarrow> rng \<Rightarrow> int list \<Rightarrow> engine \<Rightarrow> bool"
  for table lat rnd init where
  created: "reachable table lat rnd init (create_engine table lat rnd init)"
| stepped: "reachable table lat rnd init s \<Longrightarrow>
     after (engine_step table lat rnd target s) = Some s' \<Longrightarrow>
     reachable table lat rnd init s'"

text \<open>
  An event is live when its epoch is the current epoch of its link. The invariant of the
  queue, with the set \<open>K\<close> of the links still to be derived again: every event is for a
  link of the lattice without a boundary cell, its epoch is not ahead of the link's, and
  when it is live its link is active or in \<open>K\<close>.
\<close>

definition live :: "engine \<Rightarrow> event \<Rightarrow> bool" where
  "live s ev \<longleftrightarrow> ev_epoch ev = epoch s (ev_link ev)"

definition pending_inv :: "transition list \<Rightarrow> lattice \<Rightarrow> nat set \<Rightarrow> engine \<Rightarrow> bool" where
  "pending_inv table lat K s \<longleftrightarrow>
     (\<forall>ev\<in>set (queue s).
        ev_link ev < length (links lat)
        \<and> \<not> is_boundary lat (from_cell (links lat ! ev_link ev))
        \<and> \<not> is_boundary lat (to_cell (links lat ! ev_link ev))
        \<and> ev_epoch ev \<le> epoch s (ev_link ev)
        \<and> (live s ev \<longrightarrow> ev_link ev \<in> K \<or> is_active table lat (node_state s) (links lat ! ev_link ev)))"

text \<open>
  Two small lattices and a generator for examples: four cells in a row whose two end
  cells are boundary cells, two cells one above the other, and a generator whose draws
  are all 1 (exponential) and 0 (uniform).
\<close>

definition row_lattice :: lattice where
  "row_lattice =
     \<lparr>cell_count = 4,
      links = [\<lparr>from_cell = 0, to_cell = 1, link_orientation = 0\<rparr>,
               \<lparr>from_cell = 1, to_cell = 2, link_orientation = 0\<rparr>,
               \<lparr>from_cell = 2, to_cell = 3, link_orientation = 0\<rparr>],
      is_boundary = (\<lambda>c. c = 0 \<or> c = 3)\<rparr>"

definition unit_rng :: rng where
  "unit_rng = \<lparr>waiting_draw = (\<lambda>n. 1), channel_draw = (\<lambda>n. 0)\<rparr>"

definition column_lattice :: lattice where
  "column_lattice =
     \<lparr>cell_count = 2,
      links = [\<lparr>from_cell = 0, to_cell = 1, link_orientation = 1\<rparr>],
      is_boundary = (\<lambda>c. False)\<rparr>"

section \<open>The rules as a list\<close>

lemma setup_transition_list_unfold:
  "setup_transition_list =
     [Transition (0,1,0) (1,0,0) 50 ''left motion'',
      Transition (1,0,0) (0,1,0) 50 ''right motion'',
      Transition (0,1,1) (1,0,1) 50 ''down motion'',
      Transition (1,0,1) (0,1,1) 50 ''up motion'',
      Transition (1,2,1) (2,2,1) 100 ''down capture'',
      Transition (2,1,1) (2,2,1) 100 ''up capture'',
      Transition (1,2,0) (2,2,1) 100 ''left capture'',
      Transition (2,1,0) (2,2,1) 100 ''right capture'']"
  by (simp add: setup_transition_list_def append_py_def)

lemma distinct_map_filter_le_one:
  "distinct (map f xs) \<Longrightarrow> length (filter (\<lambda>r. f r = v) xs) \<le> 1"
proof (induction xs)
  case Nil
  show ?case by simp
next
  case (Cons x xs)
  show ?case
  proof (cases "f x = v")
    case True
    from Cons.prems have "f x \<notin> f ` set xs" by simp
    with True have "\<forall>r\<in>set xs. f r \<noteq> v" by blast
    then have "filter (\<lambda>r. f r = v) xs = []" by (simp add: filter_empty_conv)
    with True show ?thesis by simp
  next
    case False
    with Cons show ?thesis by simp
  qed
qed

text \<open>
  C1: \<open>setup_transition_list\<close> returns exactly eight rules. The first four are the
  motion rules, each with rate 50: (0,1,0) to (1,0,0) left motion, (1,0,0) to (0,1,0)
  right motion, (0,1,1) to (1,0,1) down motion, (1,0,1) to (0,1,1) up motion. The last
  four are the capture rules, each with rate 100. No rule carries one of the rates
  10.55 or 9.45 of the docstring.
\<close>

theorem setup_transition_list_rules:
  "length setup_transition_list = 8
   \<and> take 4 setup_transition_list =
       [Transition (0,1,0) (1,0,0) 50 ''left motion'',
        Transition (1,0,0) (0,1,0) 50 ''right motion'',
        Transition (0,1,1) (1,0,1) 50 ''down motion'',
        Transition (1,0,1) (0,1,1) 50 ''up motion'']
   \<and> map rate (take 4 setup_transition_list) = [50, 50, 50, 50]
   \<and> map name (drop 4 setup_transition_list) =
       [''down capture'', ''up capture'', ''left capture'', ''right capture'']
   \<and> map rate (drop 4 setup_transition_list) = [100, 100, 100, 100]
   \<and> 1055 / 100 \<notin> set (map rate setup_transition_list)
   \<and> 945 / 100 \<notin> set (map rate setup_transition_list)"
  by (simp add: setup_transition_list_unfold Transition_def)

text \<open>
  C2, as the source has it: the rules \<open>left capture\<close> and \<open>right capture\<close> (the
  seventh and the eighth of the list) start from a horizontal pair state, orientation
  0, and name a destination of orientation 1. They are the only rules of the list whose
  destination has another orientation than their source.
\<close>

theorem horizontal_capture_changes_orientation:
  "filter (\<lambda>r. orientation (to_state r) \<noteq> orientation (from_state r)) setup_transition_list
     = [Transition (1,2,0) (2,2,1) 100 ''left capture'',
        Transition (2,1,0) (2,2,1) 100 ''right capture'']
   \<and> orientation (from_state (setup_transition_list ! 6)) = 0
   \<and> orientation (to_state (setup_transition_list ! 6)) = 1
   \<and> orientation (from_state (setup_transition_list ! 7)) = 0
   \<and> orientation (to_state (setup_transition_list ! 7)) = 1"
  by (simp add: setup_transition_list_unfold Transition_def orientation_def)

text \<open>
  C8: the eight rules have pairwise distinct source pair states, so that every pair
  state is the source of at most one rule of the list: no pair state has two competing
  channels.
\<close>

theorem sources_distinct:
  "distinct (map from_state setup_transition_list)
   \<and> length (filter (\<lambda>r. from_state r = ps) setup_transition_list) \<le> 1"
proof
  show "distinct (map from_state setup_transition_list)"
    by (simp add: setup_transition_list_unfold Transition_def)
  then show "length (filter (\<lambda>r. from_state r = ps) setup_transition_list) \<le> 1"
    by (rule distinct_map_filter_le_one)
qed

section \<open>What the rules do to the cells\<close>

lemma static_crystal_kept:
  "r \<in> set setup_transition_list \<Longrightarrow>
     (tail_state (from_state r) = 2 \<longrightarrow> tail_state (to_state r) = 2)
     \<and> (head_state (from_state r) = 2 \<longrightarrow> head_state (to_state r) = 2)"
  by (auto simp add: setup_transition_list_unfold Transition_def tail_state_def head_state_def)

lemma count_list_update:
  "i < length xs \<Longrightarrow>
     count_list (xs[i := v]) a + (if xs ! i = a then 1 else 0)
       = count_list xs a + (if v = a then 1 else 0)"
proof (induction xs arbitrary: i)
  case Nil
  then show ?case by simp
next
  case (Cons x xs)
  show ?case
  proof (cases i)
    case 0
    then show ?thesis by simp
  next
    case (Suc n)
    with Cons.prems have "n < length xs" by simp
    from Cons.IH [OF this] Suc show ?thesis by (auto split: if_splits)
  qed
qed

lemma fire_length:
  "fire cells f = Some cells' \<Longrightarrow> length cells' = length cells"
  by (auto simp add: fire_def apply_destination_def split: if_splits)

lemma fire_keeps_crystal:
  assumes r: "fired_rule f \<in> set setup_transition_list"
    and f: "fire cells f = Some cells'"
    and k: "k < length cells" "cells ! k = 2"
  shows "cells' ! k = 2"
proof -
  from f have en: "enabled cells f"
    and eq: "cells' = apply_destination cells (from_cell f) (to_cell f) (to_state (fired_rule f))"
    by (auto simp add: fire_def split: if_splits)
  from en have ps: "from_state (fired_rule f)
      = (cells ! from_cell f, cells ! to_cell f, link_orientation f)"
    and bounds: "from_cell f < length cells" "to_cell f < length cells"
    by (simp_all add: enabled_def derive_pair_state_def)
  have src: "cells ! from_cell f = tail_state (from_state (fired_rule f))"
    "cells ! to_cell f = head_state (from_state (fired_rule f))"
    by (simp_all add: ps tail_state_def head_state_def)
  note keep = static_crystal_kept [OF r]
  show ?thesis
  proof (cases "k = to_cell f")
    case True
    with k src keep have "head_state (to_state (fired_rule f)) = 2" by simp
    with True bounds show ?thesis by (simp add: eq apply_destination_def)
  next
    case nj: False
    show ?thesis
    proof (cases "k = from_cell f")
      case True
      with k src keep have "tail_state (to_state (fired_rule f)) = 2" by simp
      with True nj bounds show ?thesis by (simp add: eq apply_destination_def)
    next
      case False
      with nj k show ?thesis by (simp add: eq apply_destination_def)
    qed
  qed
qed

lemma fire_all_keeps_crystal:
  "\<forall>f\<in>set fs. fired_rule f \<in> set setup_transition_list \<Longrightarrow>
   fire_all cells fs = Some cells' \<Longrightarrow>
   length cells' = length cells \<and> (\<forall>k<length cells. cells ! k = 2 \<longrightarrow> cells' ! k = 2)"
proof (induction fs arbitrary: cells)
  case Nil
  then show ?case by simp
next
  case (Cons f fs)
  from Cons.prems(2) obtain mid where mid: "fire cells f = Some mid"
    and rest: "fire_all mid fs = Some cells'"
    by (auto split: option.splits)
  from Cons.prems(1) have rf: "fired_rule f \<in> set setup_transition_list"
    and rfs: "\<forall>g\<in>set fs. fired_rule g \<in> set setup_transition_list"
    by simp_all
  have len: "length mid = length cells" by (rule fire_length [OF mid])
  from Cons.IH [OF rfs rest] len
  have ih: "length cells' = length cells" "\<forall>k<length cells. mid ! k = 2 \<longrightarrow> cells' ! k = 2"
    by simp_all
  show ?case
  proof (intro conjI allI impI)
    show "length cells' = length cells" by (rule ih(1))
  next
    fix k assume "k < length cells" "cells ! k = 2"
    then have "mid ! k = 2" by (rule fire_keeps_crystal [OF rf mid])
    with ih(2) \<open>k < length cells\<close> show "cells' ! k = 2" by simp
  qed
qed

lemma fire_capture_counts:
  assumes cap: "is_capture (fired_rule f)" and f: "fire cells f = Some cells'"
  shows "count_list cells' 1 + 1 = count_list cells 1
     \<and> count_list cells' 2 = count_list cells 2 + 1"
proof -
  let ?i = "from_cell f" and ?j = "to_cell f"
  from f have en: "enabled cells f"
    and eq: "cells' = apply_destination cells ?i ?j (to_state (fired_rule f))"
    by (auto simp add: fire_def split: if_splits)
  from en have ps: "from_state (fired_rule f) = (cells ! ?i, cells ! ?j, link_orientation f)"
    and bounds: "?i < length cells" "?j < length cells" and ne: "?i \<noteq> ?j"
    by (simp_all add: enabled_def derive_pair_state_def)
  from cap have dst: "tail_state (to_state (fired_rule f)) = 2"
    "head_state (to_state (fired_rule f)) = 2"
    and src: "(cells ! ?i = 1 \<and> cells ! ?j = 2) \<or> (cells ! ?i = 2 \<and> cells ! ?j = 1)"
    by (simp_all add: is_capture_def ps tail_state_def head_state_def)
  have eq2: "cells' = (cells[?i := 2])[?j := 2]"
    by (simp add: eq apply_destination_def dst)
  have mid: "(cells[?i := 2]) ! ?j = cells ! ?j" using ne by simp
  have a: "count_list cells' a + (if cells ! ?j = a then 1 else 0) + (if cells ! ?i = a then 1 else 0)
      = count_list cells a + (if 2 = a then 1 else 0) + (if 2 = a then 1 else 0)" for a :: int
    using count_list_update [of ?i cells 2 a] count_list_update [of ?j "cells[?i := 2]" 2 a]
      bounds mid by (simp add: eq2)
  from a [of 1] a [of 2] src show ?thesis by auto
qed

text \<open>
  C3: the capture rules are the last four rules of the list. When one of them fires on
  a link (its two distinct cells hold the source pair state), the destination is written
  to the two cells, and afterwards there is exactly one particle cell less and exactly
  one crystal cell more, and as many cells as before.
\<close>

theorem capture_conservation:
  assumes "fired_rule f \<in> set setup_transition_list"
    and "is_capture (fired_rule f)"
    and "enabled cells f"
  shows "filter is_capture setup_transition_list = drop 4 setup_transition_list
     \<and> (\<exists>cells'. fire cells f = Some cells'
          \<and> count_list cells' 1 + 1 = count_list cells 1
          \<and> count_list cells' 2 = count_list cells 2 + 1
          \<and> length cells' = length cells)"
proof
  show "filter is_capture setup_transition_list = drop 4 setup_transition_list"
    by (simp add: setup_transition_list_unfold Transition_def is_capture_def
        tail_state_def head_state_def)
next
  from assms(3) obtain cells' where f: "fire cells f = Some cells'"
    by (simp add: fire_def)
  from fire_capture_counts [OF assms(2) f] fire_length [OF f] f
  show "\<exists>cells'. fire cells f = Some cells'
          \<and> count_list cells' 1 + 1 = count_list cells 1
          \<and> count_list cells' 2 = count_list cells 2 + 1
          \<and> length cells' = length cells"
    by simp
qed

theorem capture_conservation_witness:
  "fired_rule \<lparr>from_cell = 1, to_cell = 2, link_orientation = 1,
       fired_rule = Transition (1,2,1) (2,2,1) 100 ''down capture''\<rparr> \<in> set setup_transition_list
   \<and> is_capture (Transition (1,2,1) (2,2,1) 100 ''down capture'')
   \<and> enabled [0, 1, 2, 1] \<lparr>from_cell = 1, to_cell = 2, link_orientation = 1,
       fired_rule = Transition (1,2,1) (2,2,1) 100 ''down capture''\<rparr>
   \<and> fire [0, 1, 2, 1] \<lparr>from_cell = 1, to_cell = 2, link_orientation = 1,
       fired_rule = Transition (1,2,1) (2,2,1) 100 ''down capture''\<rparr> = Some [0, 2, 2, 1]
   \<and> count_list [0, 2, 2, 1 :: int] 1 + 1 = count_list [0, 1, 2, 1 :: int] 1
   \<and> count_list [0, 2, 2, 1 :: int] 2 = count_list [0, 1, 2, 1 :: int] 2 + 1"
proof -
  let ?f = "\<lparr>from_cell = 1, to_cell = 2, link_orientation = 1,
       fired_rule = Transition (1,2,1) (2,2,1) 100 ''down capture''\<rparr>"
  have h1: "fired_rule ?f \<in> set setup_transition_list"
    by (simp add: setup_transition_list_unfold)
  have h2: "is_capture (fired_rule ?f)"
    by (simp add: Transition_def is_capture_def tail_state_def head_state_def)
  have h3: "enabled [0, 1, 2, 1] ?f"
    by (simp add: enabled_def derive_pair_state_def Transition_def)
  have v: "fire [0, 1, 2, 1] ?f = Some [0, 2, 2, 1]"
    using h3 by (simp add: fire_def apply_destination_def Transition_def tail_state_def
        head_state_def)
  have h2': "is_capture (Transition (1,2,1) (2,2,1) 100 ''down capture'')"
    using h2 by simp
  from capture_conservation [OF h1 h2 h3] obtain c where c: "fire [0, 1, 2, 1] ?f = Some c"
    and n: "count_list c 1 + 1 = count_list [0, 1, 2, 1 :: int] 1"
      "count_list c 2 = count_list [0, 1, 2, 1 :: int] 2 + 1"
    by blast
  from c v have "c = [0, 2, 2, 1]" by simp
  with n have n': "count_list [0, 2, 2, 1 :: int] 1 + 1 = count_list [0, 1, 2, 1 :: int] 1"
    "count_list [0, 2, 2, 1 :: int] 2 = count_list [0, 1, 2, 1 :: int] 2 + 1"
    by blast+
  show ?thesis by (intro conjI h1 h2' h3 v n')
qed

text \<open>
  C6: every rule of the list has a strictly positive rate, and the four cell states it
  names (two in its source, two in its destination) are keys of \<open>ns_dict\<close>, whose keys
  are 0, 1 and 2. These are the two conditions under which building the transition
  table rejects a rule for its rate or for an undeclared state.
\<close>

theorem rules_positive_and_declared:
  "dom ns_dict = {0, 1, 2}
   \<and> (\<forall>r\<in>set setup_transition_list.
         0 < rate r
         \<and> tail_state (from_state r) \<in> dom ns_dict
         \<and> head_state (from_state r) \<in> dom ns_dict
         \<and> tail_state (to_state r) \<in> dom ns_dict
         \<and> head_state (to_state r) \<in> dom ns_dict)"
proof
  show d: "dom ns_dict = {0, 1, 2}"
    by (auto simp add: ns_dict_def)
  show "\<forall>r\<in>set setup_transition_list.
         0 < rate r
         \<and> tail_state (from_state r) \<in> dom ns_dict
         \<and> head_state (from_state r) \<in> dom ns_dict
         \<and> tail_state (to_state r) \<in> dom ns_dict
         \<and> head_state (to_state r) \<in> dom ns_dict"
    unfolding d
    by (simp add: setup_transition_list_unfold Transition_def tail_state_def head_state_def)
qed

theorem rules_positive_and_declared_witness:
  "Transition (2,1,0) (2,2,1) 100 ''right capture'' \<in> set setup_transition_list
   \<and> 0 < rate (Transition (2,1,0) (2,2,1) 100 ''right capture'')
   \<and> tail_state (from_state (Transition (2,1,0) (2,2,1) 100 ''right capture'')) \<in> dom ns_dict
   \<and> head_state (from_state (Transition (2,1,0) (2,2,1) 100 ''right capture'')) \<in> dom ns_dict"
proof -
  have h: "Transition (2,1,0) (2,2,1) 100 ''right capture'' \<in> set setup_transition_list"
    by (simp add: setup_transition_list_unfold)
  from rules_positive_and_declared h show ?thesis by blast
qed

text \<open>
  C9: no rule of the list takes a cell out of the crystal state: where the source of a
  rule has a 2, the destination has a 2 at the same place. Hence, along any sequence of
  firings of rules of the list, a cell that is crystal stays crystal: the set of crystal
  cells only grows.
\<close>

theorem crystal_permanent:
  "(\<forall>r\<in>set setup_transition_list.
      (tail_state (from_state r) = 2 \<longrightarrow> tail_state (to_state r) = 2)
      \<and> (head_state (from_state r) = 2 \<longrightarrow> head_state (to_state r) = 2))
   \<and> ((\<forall>f\<in>set fs. fired_rule f \<in> set setup_transition_list)
        \<and> fire_all cells fs = Some cells'
      \<longrightarrow> length cells' = length cells
          \<and> {k. k < length cells \<and> cells ! k = 2} \<subseteq> {k. k < length cells' \<and> cells' ! k = 2})"
proof (intro conjI impI ballI)
  fix r assume "r \<in> set setup_transition_list"
  from static_crystal_kept [OF this]
  show "tail_state (from_state r) = 2 \<Longrightarrow> tail_state (to_state r) = 2"
    and "head_state (from_state r) = 2 \<Longrightarrow> head_state (to_state r) = 2"
    by simp_all
next
  assume a: "(\<forall>f\<in>set fs. fired_rule f \<in> set setup_transition_list)
      \<and> fire_all cells fs = Some cells'"
  then have b: "length cells' = length cells
      \<and> (\<forall>k<length cells. cells ! k = 2 \<longrightarrow> cells' ! k = 2)"
    using fire_all_keeps_crystal [of fs cells cells'] by simp
  from b show "length cells' = length cells" by simp
  from b show "{k. k < length cells \<and> cells ! k = 2} \<subseteq> {k. k < length cells' \<and> cells' ! k = 2}"
    by auto
qed

theorem crystal_permanent_witness:
  "fire_all [1, 0, 1, 2]
      [\<lparr>from_cell = 0, to_cell = 1, link_orientation = 0,
       fired_rule = Transition (1,0,0) (0,1,0) 50 ''right motion''\<rparr>,
       \<lparr>from_cell = 2, to_cell = 3, link_orientation = 0,
       fired_rule = Transition (1,2,0) (2,2,1) 100 ''left capture''\<rparr>] = Some [0, 1, 2, 2]
   \<and> {k. k < length [1, 0, 1, 2 :: int] \<and> [1, 0, 1, 2 :: int] ! k = 2}
       \<subseteq> {k. k < length [0, 1, 2, 2 :: int] \<and> [0, 1, 2, 2 :: int] ! k = 2}"
proof -
  let ?fs = "[\<lparr>from_cell = 0, to_cell = 1, link_orientation = 0,
       fired_rule = Transition (1,0,0) (0,1,0) 50 ''right motion''\<rparr>,
       \<lparr>from_cell = 2, to_cell = 3, link_orientation = 0,
       fired_rule = Transition (1,2,0) (2,2,1) 100 ''left capture''\<rparr>]"
  have h1: "\<forall>f\<in>set ?fs. fired_rule f \<in> set setup_transition_list"
    by (simp add: setup_transition_list_unfold)
  have h2: "fire_all [1, 0, 1, 2] ?fs = Some [0, 1, 2, 2]"
    by (simp add: fire_def enabled_def derive_pair_state_def apply_destination_def
        Transition_def tail_state_def head_state_def)
  from crystal_permanent [of ?fs "[1, 0, 1, 2]" "[0, 1, 2, 2]"] h1 h2
  show ?thesis by blast
qed

section \<open>The run loop\<close>

lemma run_loop_from:
  "k \<le> 60 \<Longrightarrow>
     run_loop (real k / 2) calls = (30, calls @ map (\<lambda>j. real j / 2) [Suc k..<61])"
proof (induction "60 - k" arbitrary: k calls)
  case 0
  then have k: "k = 60" by simp
  show ?case unfolding k by (subst run_loop.simps) (simp add: run_duration_def)
next
  case (Suc n)
  then have lt: "k < 60" and n: "n = 60 - Suc k" and le: "Suc k \<le> 60" by simp_all
  have step: "real k / 2 + plot_interval = real (Suc k) / 2"
    by (simp add: plot_interval_def field_simps)
  have "run_loop (real k / 2) calls
      = run_loop (real (Suc k) / 2) (calls @ [real (Suc k) / 2])"
    using lt by (subst run_loop.simps) (simp add: run_duration_def step)
  also have "\<dots> = (30, (calls @ [real (Suc k) / 2]) @ map (\<lambda>j. real j / 2) [Suc (Suc k)..<61])"
    by (rule Suc.hyps(1) [OF n le])
  also have "[Suc k..<61] = Suc k # [Suc (Suc k)..<61]"
    using lt by (simp add: upt_conv_Cons)
  then have "(calls @ [real (Suc k) / 2]) @ map (\<lambda>j. real j / 2) [Suc (Suc k)..<61]
      = calls @ map (\<lambda>j. real j / 2) [Suc k..<61]"
    by simp
  finally show ?case .
qed

lemma main_run_calls_closed: "main_run_calls = map (\<lambda>j. real j / 2) [1..<61]"
  using run_loop_from [of 0 "[]"] by (simp add: main_run_calls_def)

lemma main_final_time_closed: "main_final_time = 30"
  using run_loop_from [of 0 "[]"] by (simp add: main_final_time_def)

text \<open>
  C7: the run loop of \<open>main\<close> ends, and it calls \<open>ca.run\<close> exactly 60 times. The target
  times are 0.5, 1.0, ..., 30.0: the first is 0.5, each later one is exactly
  \<open>plot_interval\<close> more than the one before, the last is exactly \<open>run_duration\<close>. So
  the sequence is strictly increasing, and non-decreasing too.
\<close>

theorem run_calls_increasing:
  "main_run_calls = map (\<lambda>j. real j / 2) [1..<61]
   \<and> length main_run_calls = 60
   \<and> hd main_run_calls = 0.5
   \<and> last main_run_calls = run_duration
   \<and> (\<forall>i<59. main_run_calls ! Suc i = main_run_calls ! i + plot_interval)
   \<and> sorted_wrt (<) main_run_calls
   \<and> sorted main_run_calls
   \<and> main_final_time = run_duration"
proof (intro conjI allI impI)
  show "main_run_calls = map (\<lambda>j. real j / 2) [1..<61]" by (rule main_run_calls_closed)
  show "length main_run_calls = 60" by (simp add: main_run_calls_closed)
  show "hd main_run_calls = 0.5"
    by (simp add: main_run_calls_closed upt_conv_Cons)
  show "last main_run_calls = run_duration"
    by (simp add: main_run_calls_closed run_duration_def last_map)
  show "main_final_time = run_duration"
    by (simp add: main_final_time_closed run_duration_def)
  show s: "sorted_wrt (<) main_run_calls"
    by (simp add: main_run_calls_closed sorted_wrt_map)
  then show "sorted main_run_calls" by (rule strict_sorted_imp_sorted)
next
  fix i :: nat assume "i < 59"
  then show "main_run_calls ! Suc i = main_run_calls ! i + plot_interval"
    by (simp add: main_run_calls_closed plot_interval_def field_simps)
qed

theorem run_calls_increasing_witness:
  "(0::nat) < 59 \<and> main_run_calls ! Suc 0 = main_run_calls ! 0 + plot_interval
   \<and> main_run_calls ! 0 = 0.5 \<and> main_run_calls ! 59 = 30"
proof -
  have h: "(0::nat) < 59" by simp
  from run_calls_increasing have a: "\<forall>i<59. main_run_calls ! Suc i = main_run_calls ! i + plot_interval"
    and c: "main_run_calls = map (\<lambda>j. real j / 2) [1..<61]"
    by blast+
  from a h have "main_run_calls ! Suc 0 = main_run_calls ! 0 + plot_interval" by blast
  moreover have "main_run_calls ! 0 = 0.5" "main_run_calls ! 59 = 30"
    unfolding c by simp_all
  ultimately show ?thesis using h by blast
qed

section \<open>The initial node states\<close>

lemma fold_update_length [simp]:
  "length (fold (\<lambda>i a. a[i := v]) idx arr) = length arr"
  by (induction idx arbitrary: arr) simp_all

lemma fold_update_nth:
  "k < length arr \<Longrightarrow>
     fold (\<lambda>i a. a[i := v]) idx arr ! k = (if k \<in> set idx then v else arr ! k)"
proof (induction idx arbitrary: arr)
  case Nil
  show ?case by simp
next
  case (Cons i idx)
  from Cons.prems have "k < length (arr[i := v])" by simp
  from Cons.IH [OF this] Cons.prems show ?case
    by (cases "k = i") simp_all
qed

lemma assign_at_ok:
  "\<forall>i\<in>set idx. i < length arr \<Longrightarrow>
     \<exists>a. assign_at arr idx v = Inr a \<and> length a = length arr
       \<and> (\<forall>k<length arr. a ! k = (if k \<in> set idx then v else arr ! k))"
  by (simp add: assign_at_def fold_update_nth)

lemma where_py_set: "set (where_py p ys) = {i. i < length ys \<and> p (ys ! i)}"
  by (auto simp add: where_py_def)

lemma initial_node_state_ok:
  assumes cb: "\<forall>i\<in>set (closed_boundary_nodes mg). i < number_of_nodes mg"
  shows "\<exists>s. initial_node_state mg = Inr s \<and> length s = number_of_nodes mg
     \<and> (\<forall>k<number_of_nodes mg. s ! k =
          (if k \<in> set (closed_boundary_nodes mg) then 0
           else if node_y mg ! k > 50 then 2
           else if node_y mg ! k < 10 then 1 else 0))"
proof -
  let ?n = "number_of_nodes mg"
  let ?b = "where_py (\<lambda>y. y < 0.1 * real_of_int nr) (node_y mg)"
  let ?c = "where_py (\<lambda>y. y > 0.5 * real_of_int nr) (node_y mg)"
  have zn: "length (add_zeros mg) = ?n" by (simp add: add_zeros_def)
  have "\<forall>i\<in>set ?b. i < length (add_zeros mg)"
    by (simp add: where_py_set zn number_of_nodes_def)
  from assign_at_ok [OF this, of 1] obtain a1 where a1: "assign_at (add_zeros mg) ?b 1 = Inr a1"
    and l1: "length a1 = ?n"
    and v1: "\<forall>k<?n. a1 ! k = (if k \<in> set ?b then 1 else add_zeros mg ! k)"
    by (auto simp add: zn)
  have "\<forall>i\<in>set ?c. i < length a1"
    by (simp add: where_py_set l1 number_of_nodes_def)
  from assign_at_ok [OF this, of 2] obtain a2 where a2: "assign_at a1 ?c 2 = Inr a2"
    and l2: "length a2 = ?n"
    and v2: "\<forall>k<?n. a2 ! k = (if k \<in> set ?c then 2 else a1 ! k)"
    by (auto simp add: l1)
  from cb have "\<forall>i\<in>set (closed_boundary_nodes mg). i < length a2" by (simp add: l2)
  from assign_at_ok [OF this, of 0] obtain a3
    where a3: "assign_at a2 (closed_boundary_nodes mg) 0 = Inr a3"
    and l3: "length a3 = ?n"
    and v3: "\<forall>k<?n. a3 ! k = (if k \<in> set (closed_boundary_nodes mg) then 0 else a2 ! k)"
    by (auto simp add: l2)
  have r: "initial_node_state mg = Inr a3"
    unfolding initial_node_state_def Let_def a1 sum.case a2 a3 ..
  have "\<forall>k<?n. a3 ! k =
          (if k \<in> set (closed_boundary_nodes mg) then 0
           else if node_y mg ! k > 50 then 2
           else if node_y mg ! k < 10 then 1 else 0)"
    using v1 v2 v3
    by (simp add: where_py_set number_of_nodes_def nr_def add_zeros_def)
  with r l3 show ?thesis by blast
qed

text \<open>
  C10: \<open>main\<close> fills the node states in this order: zeros everywhere, then 1 at the
  nodes with y below 0.1*nr, then 2 at the nodes with y above 0.5*nr, then 0 at every
  closed boundary node. When the ids of the closed boundary nodes are ids of nodes, no
  step raises, and afterwards every closed boundary node holds 0, whatever its row, every
  other node holds 2 (y above 50), 1 (y below 10) or 0, and every state is 0, 1 or 2.
\<close>

theorem initial_states:
  assumes "\<forall>i\<in>set (closed_boundary_nodes mg). i < number_of_nodes mg"
  shows "\<exists>s. initial_node_state mg = Inr s
     \<and> length s = number_of_nodes mg
     \<and> (\<forall>k<number_of_nodes mg. s ! k =
          (if k \<in> set (closed_boundary_nodes mg) then 0
           else if node_y mg ! k > 50 then 2
           else if node_y mg ! k < 10 then 1 else 0))
     \<and> (\<forall>i\<in>set (closed_boundary_nodes mg). s ! i = 0)
     \<and> (\<forall>x\<in>set s. x = 0 \<or> x = 1 \<or> x = 2)"
proof -
  from initial_node_state_ok [OF assms] obtain s where r: "initial_node_state mg = Inr s"
    and l: "length s = number_of_nodes mg"
    and v: "\<forall>k<number_of_nodes mg. s ! k =
          (if k \<in> set (closed_boundary_nodes mg) then 0
           else if node_y mg ! k > 50 then 2
           else if node_y mg ! k < 10 then 1 else 0)"
    by blast
  from v assms have b: "\<forall>i\<in>set (closed_boundary_nodes mg). s ! i = 0" by simp
  have "\<forall>x\<in>set s. x = 0 \<or> x = 1 \<or> x = 2"
  proof
    fix x assume "x \<in> set s"
    then obtain k where "k < length s" "x = s ! k" by (auto simp add: in_set_conv_nth)
    with v l show "x = 0 \<or> x = 1 \<or> x = 2" by simp
  qed
  with r l v b show ?thesis by blast
qed

text \<open>
  A grid of four rows of three nodes with y coordinates 0, 5, 60 and 99: every node but
  the two inner ones (4 and 7) is a closed boundary node. The bottom row lies in the
  particle region and the top row in the crystal region, and both end as fluid.
\<close>

theorem initial_states_witness:
  "list_all (\<lambda>i. i < number_of_nodes
        \<lparr>node_y = [0, 0, 0, 5, 5, 5, 60, 60, 60, 99, 99, 99],
         closed_boundary_nodes = [0, 1, 2, 3, 5, 6, 8, 9, 10, 11]\<rparr>)
      [0, 1, 2, 3, 5, 6, 8, 9, 10, 11]
   \<and> initial_node_state
        \<lparr>node_y = [0, 0, 0, 5, 5, 5, 60, 60, 60, 99, 99, 99],
         closed_boundary_nodes = [0, 1, 2, 3, 5, 6, 8, 9, 10, 11]\<rparr>
      = Inr [0, 0, 0, 0, 1, 0, 0, 2, 0, 0, 0, 0]
   \<and> list_all (\<lambda>i. [0, 0, 0, 0, 1, 0, 0, 2, 0, 0, 0, 0 :: int] ! i = 0)
        [0, 1, 2, 3, 5, 6, 8, 9, 10, 11]"
proof -
  let ?mg = "\<lparr>node_y = [0, 0, 0, 5, 5, 5, 60, 60, 60, 99, 99, 99],
         closed_boundary_nodes = [0, 1, 2, 3, 5, 6, 8, 9, 10, 11]\<rparr>"
  have h: "\<forall>i\<in>set (closed_boundary_nodes ?mg). i < number_of_nodes ?mg"
    by (simp add: number_of_nodes_def)
  have v: "initial_node_state ?mg = Inr [0, 0, 0, 0, 1, 0, 0, 2, 0, 0, 0, 0]"
    by code_simp
  from initial_states [OF h] obtain s where "initial_node_state ?mg = Inr s"
    and "\<forall>i\<in>set (closed_boundary_nodes ?mg). s ! i = 0"
    by blast
  with v have "\<forall>i\<in>set (closed_boundary_nodes ?mg). [0, 0, 0, 0, 1, 0, 0, 2, 0, 0, 0, 0 :: int] ! i = 0"
    by simp
  with h v show ?thesis by (simp add: list_all_iff)
qed

section \<open>The invariant of the event queue\<close>

lemma rederive_cells [simp]: "node_state (rederive table lat rnd k s) = node_state s"
  by (simp add: rederive_def schedule_def Let_def)

lemma rederive_inv:
  assumes "pending_inv table lat K s" and "k < length (links lat)"
  shows "pending_inv table lat (K - {k}) (rederive table lat rnd k s)"
  using assms
  by (auto simp add: pending_inv_def rederive_def schedule_def Let_def live_def is_active_def)

lemma fold_rederive_cells [simp]: "node_state (fold (rederive table lat rnd) ks s) = node_state s"
  by (induction ks arbitrary: s) simp_all

lemma fold_rederive_inv:
  "pending_inv table lat K s \<Longrightarrow> \<forall>k\<in>set ks. k < length (links lat) \<Longrightarrow>
     pending_inv table lat (K - set ks) (fold (rederive table lat rnd) ks s)"
proof (induction ks arbitrary: K s)
  case Nil
  then show ?case by simp
next
  case (Cons k ks)
  from Cons.prems have "pending_inv table lat (K - {k}) (rederive table lat rnd k s)"
    by (simp add: rederive_inv)
  from Cons.IH [OF this] Cons.prems(2)
  have "pending_inv table lat (K - {k} - set ks) (fold (rederive table lat rnd) ks (rederive table lat rnd k s))"
    by simp
  moreover have "K - {k} - set ks = K - set (k # ks)" by auto
  ultimately show ?case by simp
qed

lemma incident_bound: "\<forall>k\<in>set (incident lat c). k < length (links lat)"
  by (simp add: incident_def)

lemma incident_iff:
  "k \<in> set (incident lat c) \<longleftrightarrow>
     k < length (links lat) \<and> (from_cell (links lat ! k) = c \<or> to_cell (links lat ! k) = c)"
  by (auto simp add: incident_def)

lemma on_cell_changed_cells [simp]: "node_state (on_cell_changed table lat rnd c s) = node_state s"
  by (simp add: on_cell_changed_def)

lemma on_cell_changed_inv:
  "pending_inv table lat K s \<Longrightarrow>
     pending_inv table lat (K - set (incident lat c)) (on_cell_changed table lat rnd c s)"
  unfolding on_cell_changed_def by (rule fold_rederive_inv [OF _ incident_bound])

lemma create_engine_inv: "pending_inv table lat {} (create_engine table lat rnd init)"
proof -
  let ?s0 = "\<lparr>node_state = init, epoch = (\<lambda>k. 0), queue = [], clock = 0, draws = 0\<rparr>"
  have "pending_inv table lat {} ?s0" by (simp add: pending_inv_def)
  then have "pending_inv table lat ({} - set [0..<length (links lat)])
      (fold (rederive table lat rnd) [0..<length (links lat)] ?s0)"
    by (rule fold_rederive_inv) simp
  then show ?thesis by (simp add: create_engine_def)
qed

lemma link_pair_state_apply:
  "from_cell l \<noteq> i \<Longrightarrow> from_cell l \<noteq> j \<Longrightarrow> to_cell l \<noteq> i \<Longrightarrow> to_cell l \<noteq> j \<Longrightarrow>
     link_pair_state (apply_destination cs i j d) l = link_pair_state cs l"
  by (simp add: link_pair_state_def derive_pair_state_def apply_destination_def)

lemma apply_inv:
  assumes inv: "pending_inv table lat {} s"
    and s': "queue s' = queue s" "epoch s' = epoch s"
      "node_state s' = apply_destination (node_state s) i j d"
  shows "pending_inv table lat (set (incident lat i) \<union> set (incident lat j)) s'"
  unfolding pending_inv_def
proof (intro ballI conjI impI)
  fix ev assume "ev \<in> set (queue s')"
  with s' have ev: "ev \<in> set (queue s)" by simp
  let ?k = "ev_link ev"
  from inv ev have a: "?k < length (links lat)"
    "\<not> is_boundary lat (from_cell (links lat ! ?k))"
    "\<not> is_boundary lat (to_cell (links lat ! ?k))"
    "ev_epoch ev \<le> epoch s ?k"
    and act: "live s ev \<Longrightarrow> is_active table lat (node_state s) (links lat ! ?k)"
    by (auto simp add: pending_inv_def)
  show "?k < length (links lat)" by (rule a)
  show "\<not> is_boundary lat (from_cell (links lat ! ?k))" by (rule a)
  show "\<not> is_boundary lat (to_cell (links lat ! ?k))" by (rule a)
  show "ev_epoch ev \<le> epoch s' ?k" using a s' by simp
  assume "live s' ev"
  with s' have l: "live s ev" by (simp add: live_def)
  show "?k \<in> set (incident lat i) \<union> set (incident lat j)
      \<or> is_active table lat (node_state s') (links lat ! ?k)"
  proof (cases "?k \<in> set (incident lat i) \<union> set (incident lat j)")
    case True
    then show ?thesis by simp
  next
    case False
    with a(1) have "from_cell (links lat ! ?k) \<noteq> i" "from_cell (links lat ! ?k) \<noteq> j"
      "to_cell (links lat ! ?k) \<noteq> i" "to_cell (links lat ! ?k) \<noteq> j"
      by (simp_all add: incident_iff)
    then have "link_pair_state (node_state s') (links lat ! ?k) = link_pair_state (node_state s) (links lat ! ?k)"
      by (simp add: s' link_pair_state_apply)
    with act [OF l] show ?thesis by (simp add: is_active_def)
  qed
qed

lemma next_event_in: "next_event es = Some ev \<Longrightarrow> ev \<in> set es"
  by (induction es arbitrary: ev) (auto split: option.splits if_splits)

lemma remove_inv:
  "pending_inv table lat K s \<Longrightarrow>
     pending_inv table lat K (s\<lparr>queue := remove1 ev (queue s)\<rparr>)"
  by (auto simp add: pending_inv_def live_def dest: notin_set_remove1)

lemma clock_inv:
  "pending_inv table lat K s \<Longrightarrow> pending_inv table lat K (s\<lparr>clock := t\<rparr>)"
  by (simp add: pending_inv_def live_def)

lemma execute_inv:
  assumes inv: "pending_inv table lat {} s"
    and ex: "execute table lat rnd ev s = Continue s'"
  shows "pending_inv table lat {} s'"
proof -
  let ?l = "links lat ! ev_link ev"
  let ?i = "from_cell ?l" and ?j = "to_cell ?l"
  let ?s2 = "s\<lparr>clock := ev_time ev\<rparr>"
  from ex obtain d where
    s': "s' = on_cell_changed table lat rnd ?j (on_cell_changed table lat rnd ?i
        (?s2\<lparr>node_state := apply_destination (node_state ?s2) ?i ?j d,
              draws := (if length (rules_for table (link_pair_state (node_state ?s2) ?l)) > 1
                        then Suc (draws ?s2) else draws ?s2)\<rparr>))"
    by (auto simp add: execute_def Let_def split: option.splits)
  let ?s3 = "?s2\<lparr>node_state := apply_destination (node_state ?s2) ?i ?j d,
              draws := (if length (rules_for table (link_pair_state (node_state ?s2) ?l)) > 1
                        then Suc (draws ?s2) else draws ?s2)\<rparr>"
  have "pending_inv table lat (set (incident lat ?i) \<union> set (incident lat ?j)) ?s3"
    by (rule apply_inv [OF inv]) simp_all
  then have "pending_inv table lat (set (incident lat ?i) \<union> set (incident lat ?j)
        - set (incident lat ?i) - set (incident lat ?j)) s'"
    unfolding s' by (intro on_cell_changed_inv)
  moreover have "set (incident lat ?i) \<union> set (incident lat ?j)
        - set (incident lat ?i) - set (incident lat ?j) = {}" by auto
  ultimately show ?thesis by simp
qed

lemma engine_step_inv:
  assumes inv: "pending_inv table lat {} s"
    and st: "after (engine_step table lat rnd target s) = Some s'"
  shows "pending_inv table lat {} s'"
proof (cases "next_event (queue s)")
  case None
  with st have "s' = s\<lparr>clock := target\<rparr>" by (simp add: engine_step_def)
  with inv show ?thesis by (simp add: clock_inv)
next
  case (Some ev)
  show ?thesis
  proof (cases "ev_time ev > target")
    case True
    with Some st have "s' = s\<lparr>clock := target\<rparr>" by (simp add: engine_step_def)
    with inv show ?thesis by (simp add: clock_inv)
  next
    case False
    let ?s1 = "s\<lparr>queue := remove1 ev (queue s)\<rparr>"
    have inv1: "pending_inv table lat {} ?s1" by (rule remove_inv [OF inv])
    show ?thesis
    proof (cases "ev_epoch ev \<noteq> epoch s (ev_link ev)")
      case True
      with Some False st have "s' = ?s1" by (simp add: engine_step_def Let_def)
      with inv1 show ?thesis by simp
    next
      case live: False
      with Some \<open>\<not> ev_time ev > target\<close> st
      have e: "after (execute table lat rnd ev ?s1) = Some s'"
        by (simp add: engine_step_def Let_def)
      then have "execute table lat rnd ev ?s1 = Continue s'"
        by (auto simp add: execute_def Let_def split: option.splits)
      from execute_inv [OF inv1 this] show ?thesis .
    qed
  qed
qed

lemma reachable_inv:
  "reachable table lat rnd init s \<Longrightarrow> pending_inv table lat {} s"
  by (induction rule: reachable.induct) (auto intro: create_engine_inv engine_step_inv)

lemma run_until_reachable:
  "reachable table lat rnd init s \<Longrightarrow>
   after (run_until n table lat rnd target s) = Some s' \<Longrightarrow>
   reachable table lat rnd init s'"
proof (induction n arbitrary: s)
  case 0
  then show ?case by simp
next
  case (Suc n)
  show ?case
  proof (cases "engine_step table lat rnd target s")
    case (Done t)
    with Suc.prems(2) have "after (engine_step table lat rnd target s) = Some s'" by simp
    with Suc.prems(1) show ?thesis by (rule reachable.stepped)
  next
    case (Continue t)
    then have "after (engine_step table lat rnd target s) = Some t" by simp
    with Suc.prems(1) have "reachable table lat rnd init t" by (rule reachable.stepped)
    moreover from Continue Suc.prems(2) have "after (run_until n table lat rnd target t) = Some s'"
      by simp
    ultimately show ?thesis by (rule Suc.IH)
  next
    case Fault
    with Suc.prems(2) show ?thesis by simp
  qed
qed

lemma in_remove1D: "x \<in> set (remove1 y xs) \<Longrightarrow> x \<in> set xs"
  by (meson notin_set_remove1)

lemma rederive_queue:
  "ev \<in> set (queue (rederive table lat rnd k s)) \<Longrightarrow>
     ev \<in> set (queue s) \<or> is_active table lat (node_state s) (links lat ! ev_link ev)"
  by (auto simp add: rederive_def schedule_def Let_def split: if_splits)

lemma fold_rederive_queue:
  "ev \<in> set (queue (fold (rederive table lat rnd) ks s)) \<Longrightarrow>
     ev \<in> set (queue s) \<or> is_active table lat (node_state s) (links lat ! ev_link ev)"
proof (induction ks arbitrary: s)
  case Nil
  then show ?case by simp
next
  case (Cons k ks)
  from Cons.IH [of "rederive table lat rnd k s"] Cons.prems
  have "ev \<in> set (queue (rederive table lat rnd k s))
      \<or> is_active table lat (node_state s) (links lat ! ev_link ev)"
    by simp
  then show ?case by (auto dest: rederive_queue)
qed

lemma create_engine_queue:
  "ev \<in> set (queue (create_engine table lat rnd init)) \<Longrightarrow>
     is_active table lat init (links lat ! ev_link ev)"
  by (auto simp add: create_engine_def dest: fold_rederive_queue)

lemma create_engine_cells [simp]: "node_state (create_engine table lat rnd init) = init"
  by (simp add: create_engine_def)

lemma execute_queue:
  assumes ex: "execute table lat rnd e s = Continue s'" and ev: "ev \<in> set (queue s')"
  shows "ev \<in> set (queue s) \<or> is_active table lat (node_state s') (links lat ! ev_link ev)"
proof -
  let ?l = "links lat ! ev_link e"
  let ?i = "from_cell ?l" and ?j = "to_cell ?l"
  let ?s2 = "s\<lparr>clock := ev_time e\<rparr>"
  from ex obtain d where
    s': "s' = on_cell_changed table lat rnd ?j (on_cell_changed table lat rnd ?i
        (?s2\<lparr>node_state := apply_destination (node_state ?s2) ?i ?j d,
              draws := (if length (rules_for table (link_pair_state (node_state ?s2) ?l)) > 1
                        then Suc (draws ?s2) else draws ?s2)\<rparr>))"
    by (auto simp add: execute_def Let_def split: option.splits)
  let ?s3 = "?s2\<lparr>node_state := apply_destination (node_state ?s2) ?i ?j d,
              draws := (if length (rules_for table (link_pair_state (node_state ?s2) ?l)) > 1
                        then Suc (draws ?s2) else draws ?s2)\<rparr>"
  let ?s4 = "on_cell_changed table lat rnd ?i ?s3"
  have c: "node_state s' = node_state ?s3" "node_state ?s4 = node_state ?s3" by (simp_all add: s')
  from ev have "ev \<in> set (queue ?s4) \<or> is_active table lat (node_state ?s4) (links lat ! ev_link ev)"
    unfolding s' on_cell_changed_def [of table lat rnd ?j] by (rule fold_rederive_queue)
  then have "ev \<in> set (queue ?s3) \<or> is_active table lat (node_state ?s3) (links lat ! ev_link ev)"
    unfolding c(2) on_cell_changed_def [of table lat rnd ?i]
    by (auto dest: fold_rederive_queue)
  then show ?thesis unfolding c(1) by simp
qed

lemma engine_step_cases:
  assumes st: "after (engine_step table lat rnd target s) = Some s'"
  shows "(queue s' = queue s \<and> node_state s' = node_state s \<and> epoch s' = epoch s)
     \<or> (\<exists>ev. ev \<in> set (queue s) \<and> \<not> live s ev
           \<and> s' = s\<lparr>queue := remove1 ev (queue s)\<rparr>)
     \<or> (\<exists>ev. ev \<in> set (queue s) \<and> live s ev
           \<and> execute table lat rnd ev (s\<lparr>queue := remove1 ev (queue s)\<rparr>) = Continue s')"
proof (cases "next_event (queue s)")
  case None
  with st have "s' = s\<lparr>clock := target\<rparr>" by (simp add: engine_step_def)
  then show ?thesis by simp
next
  case (Some ev)
  then have ev: "ev \<in> set (queue s)" by (rule next_event_in)
  show ?thesis
  proof (cases "ev_time ev > target")
    case True
    with Some st have "s' = s\<lparr>clock := target\<rparr>" by (simp add: engine_step_def)
    then show ?thesis by simp
  next
    case False
    show ?thesis
    proof (cases "live s ev")
      case False
      with Some \<open>\<not> ev_time ev > target\<close> st
      have "s' = s\<lparr>queue := remove1 ev (queue s)\<rparr>"
        by (simp add: engine_step_def Let_def live_def)
      with ev False show ?thesis by blast
    next
      case True
      with Some \<open>\<not> ev_time ev > target\<close> st
      have "after (execute table lat rnd ev (s\<lparr>queue := remove1 ev (queue s)\<rparr>)) = Some s'"
        by (simp add: engine_step_def Let_def live_def)
      then have "execute table lat rnd ev (s\<lparr>queue := remove1 ev (queue s)\<rparr>) = Continue s'"
        by (auto simp add: execute_def Let_def split: option.splits)
      with ev True show ?thesis by blast
    qed
  qed
qed

lemma engine_step_queue:
  assumes st: "after (engine_step table lat rnd target s) = Some s'"
    and ev: "ev \<in> set (queue s')"
  shows "ev \<in> set (queue s) \<or> is_active table lat (node_state s') (links lat ! ev_link ev)"
  using engine_step_cases [OF st]
proof (elim disjE exE conjE)
  assume "queue s' = queue s"
  with ev show ?thesis by simp
next
  fix e assume "s' = s\<lparr>queue := remove1 e (queue s)\<rparr>"
  with ev show ?thesis by (auto dest: in_remove1D)
next
  fix e assume "execute table lat rnd e (s\<lparr>queue := remove1 e (queue s)\<rparr>) = Continue s'"
  from execute_queue [OF this ev] show ?thesis by (auto dest: in_remove1D)
qed

lemma execute_cells:
  assumes ex: "execute table lat rnd e s = Continue s'"
  shows "\<exists>d. node_state s' = apply_destination (node_state s)
      (from_cell (links lat ! ev_link e)) (to_cell (links lat ! ev_link e)) d"
proof -
  from ex obtain d where "node_state s' = apply_destination (node_state s)
      (from_cell (links lat ! ev_link e)) (to_cell (links lat ! ev_link e)) d"
    by (auto simp add: execute_def Let_def split: option.splits)
  then show ?thesis ..
qed

lemma engine_step_boundary:
  assumes inv: "pending_inv table lat {} s"
    and st: "after (engine_step table lat rnd target s) = Some s'"
    and b: "is_boundary lat c"
  shows "node_state s' ! c = node_state s ! c"
  using engine_step_cases [OF st]
proof (elim disjE exE conjE)
  assume "node_state s' = node_state s"
  then show ?thesis by simp
next
  fix e assume "s' = s\<lparr>queue := remove1 e (queue s)\<rparr>"
  then show ?thesis by simp
next
  fix e assume e: "e \<in> set (queue s)"
    and ex: "execute table lat rnd e (s\<lparr>queue := remove1 e (queue s)\<rparr>) = Continue s'"
  from inv e have "\<not> is_boundary lat (from_cell (links lat ! ev_link e))"
    "\<not> is_boundary lat (to_cell (links lat ! ev_link e))"
    by (auto simp add: pending_inv_def)
  with b have "c \<noteq> from_cell (links lat ! ev_link e)" "c \<noteq> to_cell (links lat ! ev_link e)"
    by auto
  with execute_cells [OF ex] show ?thesis
    by (auto simp add: apply_destination_def)
qed

lemma reachable_boundary:
  "reachable table lat rnd init s \<Longrightarrow> is_boundary lat c \<Longrightarrow> node_state s ! c = init ! c"
proof (induction rule: reachable.induct)
  case created
  show ?case by simp
next
  case (stepped s target s')
  from engine_step_boundary [OF reachable_inv [OF stepped.hyps(1)] stepped.hyps(2) stepped.prems]
    stepped.IH [OF stepped.prems]
  show ?case by simp
qed

section \<open>Absorbing links and boundary cells\<close>

lemma crystal_pair_total_rate: "total_rate setup_transition_list (2, 2, ori) = 0"
  by (simp add: total_rate_def rules_for_def setup_transition_list_unfold Transition_def)

lemma crystal_link_inactive:
  "node_state s ! from_cell l = 2 \<Longrightarrow> node_state s ! to_cell l = 2 \<Longrightarrow>
     \<not> is_active setup_transition_list lat (node_state s) l"
  by (simp add: is_active_def link_pair_state_def derive_pair_state_def crystal_pair_total_rate)

text \<open>
  C4: the crystal-crystal pair state, at any orientation, is the source of no rule of
  the list, so its total rate is 0; the destination of every capture rule is such a pair
  state, so it is absorbing. In every state the engine can reach, a link whose two cells
  are crystal is not active and holds no live event, so none is executed for it; and a
  turn of the loop that leaves the two cells of a link crystal schedules no event for it
  (the events of the link in the queue were there before the turn).
\<close>

theorem crystal_pair_absorbing:
  "(\<forall>ori. (2, 2, ori) \<notin> set (map from_state setup_transition_list)
       \<and> total_rate setup_transition_list (2, 2, ori) = 0)
   \<and> (\<forall>r\<in>set setup_transition_list.
         is_capture r \<longrightarrow> total_rate setup_transition_list (to_state r) = 0)
   \<and> (reachable setup_transition_list lat rnd init s
        \<and> k < length (links lat)
        \<and> node_state s ! from_cell (links lat ! k) = 2 \<and> node_state s ! to_cell (links lat ! k) = 2
      \<longrightarrow> \<not> is_active setup_transition_list lat (node_state s) (links lat ! k)
          \<and> (\<forall>ev\<in>set (queue s). ev_link ev = k \<longrightarrow> \<not> live s ev))
   \<and> (reachable setup_transition_list lat rnd init s
        \<and> after (engine_step setup_transition_list lat rnd target s) = Some s'
        \<and> k < length (links lat)
        \<and> node_state s' ! from_cell (links lat ! k) = 2 \<and> node_state s' ! to_cell (links lat ! k) = 2
      \<longrightarrow> (\<forall>ev\<in>set (queue s'). ev_link ev = k \<longrightarrow> ev \<in> set (queue s)))"
proof (intro conjI allI impI ballI)
  fix ori :: int
  show "(2, 2, ori) \<notin> set (map from_state setup_transition_list)"
    by (simp add: setup_transition_list_unfold Transition_def)
  show "total_rate setup_transition_list (2, 2, ori) = 0"
    by (rule crystal_pair_total_rate)
next
  fix r assume "r \<in> set setup_transition_list" "is_capture r"
  then have "to_state r = (2, 2, 1)"
    by (auto simp add: setup_transition_list_unfold Transition_def is_capture_def
        tail_state_def head_state_def)
  then show "total_rate setup_transition_list (to_state r) = 0"
    by (simp add: crystal_pair_total_rate)
next
  assume a: "reachable setup_transition_list lat rnd init s
        \<and> k < length (links lat)
        \<and> node_state s ! from_cell (links lat ! k) = 2 \<and> node_state s ! to_cell (links lat ! k) = 2"
  then show na: "\<not> is_active setup_transition_list lat (node_state s) (links lat ! k)"
    by (simp add: crystal_link_inactive)
  fix ev assume "ev \<in> set (queue s)" "ev_link ev = k"
  with reachable_inv [of setup_transition_list lat rnd init s] a na
  show "\<not> live s ev" by (auto simp add: pending_inv_def)
next
  fix ev
  assume a: "reachable setup_transition_list lat rnd init s
        \<and> after (engine_step setup_transition_list lat rnd target s) = Some s'
        \<and> k < length (links lat)
        \<and> node_state s' ! from_cell (links lat ! k) = 2 \<and> node_state s' ! to_cell (links lat ! k) = 2"
    and ev: "ev \<in> set (queue s')" "ev_link ev = k"
  from a have st: "after (engine_step setup_transition_list lat rnd target s) = Some s'"
    and na: "\<not> is_active setup_transition_list lat (node_state s') (links lat ! k)"
    by (simp_all add: crystal_link_inactive)
  from engine_step_queue [OF st ev(1)] ev(2) na show "ev \<in> set (queue s)" by simp
qed

theorem crystal_pair_absorbing_witness:
  "reachable setup_transition_list column_lattice unit_rng [1, 2]
      (create_engine setup_transition_list column_lattice unit_rng [1, 2])
   \<and> map ev_link (queue (create_engine setup_transition_list column_lattice unit_rng [1, 2])) = [0]
   \<and> map_option node_state (after (engine_step setup_transition_list column_lattice unit_rng 1
        (create_engine setup_transition_list column_lattice unit_rng [1, 2]))) = Some [2, 2]
   \<and> map_option queue (after (engine_step setup_transition_list column_lattice unit_rng 1
        (create_engine setup_transition_list column_lattice unit_rng [1, 2]))) = Some []
   \<and> total_rate setup_transition_list (2, 2, 1) = 0
   \<and> Transition (1,2,1) (2,2,1) 100 ''down capture'' \<in> set setup_transition_list
   \<and> is_capture (Transition (1,2,1) (2,2,1) 100 ''down capture'')
   \<and> total_rate setup_transition_list
        (to_state (Transition (1,2,1) (2,2,1) 100 ''down capture'')) = 0"
proof -
  let ?s0 = "create_engine setup_transition_list column_lattice unit_rng [1, 2]"
  let ?r = "after (engine_step setup_transition_list column_lattice unit_rng 1 ?s0)"
  have r0: "reachable setup_transition_list column_lattice unit_rng [1, 2] ?s0"
    by (rule reachable.created)
  have q0: "map ev_link (queue ?s0) = [0]" by code_simp
  have c1: "map_option node_state ?r = Some [2, 2]" by code_simp
  have q1: "map_option queue ?r = Some []" by code_simp
  from c1 obtain s1 where st: "?r = Some s1" and cs: "node_state s1 = [2, 2]" by auto
  have k: "(0::nat) < length (links column_lattice)"
    and e: "node_state s1 ! from_cell (links column_lattice ! 0) = 2"
      "node_state s1 ! to_cell (links column_lattice ! 0) = 2"
    by (simp_all add: column_lattice_def cs)
  have m: "Transition (1,2,1) (2,2,1) 100 ''down capture'' \<in> set setup_transition_list"
    by (simp add: setup_transition_list_unfold)
  have c: "is_capture (Transition (1,2,1) (2,2,1) 100 ''down capture'')"
    by (simp add: Transition_def is_capture_def tail_state_def head_state_def)
  from crystal_pair_absorbing [of column_lattice unit_rng "[1, 2]" ?s0 0 1 s1]
  have "total_rate setup_transition_list (2, 2, 1) = 0"
    and "\<forall>ev\<in>set (queue s1). ev_link ev = 0 \<longrightarrow> ev \<in> set (queue ?s0)"
    and "total_rate setup_transition_list
        (to_state (Transition (1,2,1) (2,2,1) 100 ''down capture'')) = 0"
    using r0 st k e m c by blast+
  with r0 q0 c1 q1 m c show ?thesis by blast
qed

text \<open>
  C5: whatever the rules and their rates, in every state the engine can reach no event
  in the queue is for a link with a boundary cell at one of its ends: no event is ever
  scheduled for such a link, and a boundary cell never starts a transition. So the state
  of a boundary cell is the one it had at construction; when the boundary cells are the
  closed boundary nodes of the grid and the initial states are those \<open>main\<close> sets, every
  boundary cell is fluid (0) throughout the run.
\<close>

theorem boundary_never_scheduled:
  assumes "reachable table lat rnd init s"
  shows "(\<forall>ev\<in>set (queue s).
            \<not> is_boundary lat (from_cell (links lat ! ev_link ev))
            \<and> \<not> is_boundary lat (to_cell (links lat ! ev_link ev)))
     \<and> (\<forall>c. is_boundary lat c \<longrightarrow> node_state s ! c = init ! c)
     \<and> ((\<forall>i\<in>set (closed_boundary_nodes mg). i < number_of_nodes mg)
          \<and> initial_node_state mg = Inr init
          \<and> (\<forall>c. is_boundary lat c \<longleftrightarrow> c \<in> set (closed_boundary_nodes mg))
        \<longrightarrow> (\<forall>c. is_boundary lat c \<longrightarrow> node_state s ! c = 0))"
proof (intro conjI ballI allI impI)
  fix ev assume "ev \<in> set (queue s)"
  with reachable_inv [OF assms]
  show "\<not> is_boundary lat (from_cell (links lat ! ev_link ev))"
    and "\<not> is_boundary lat (to_cell (links lat ! ev_link ev))"
    by (auto simp add: pending_inv_def)
next
  fix c assume "is_boundary lat c"
  then show "node_state s ! c = init ! c" by (rule reachable_boundary [OF assms])
next
  fix c
  assume a: "(\<forall>i\<in>set (closed_boundary_nodes mg). i < number_of_nodes mg)
          \<and> initial_node_state mg = Inr init
          \<and> (\<forall>c. is_boundary lat c \<longleftrightarrow> c \<in> set (closed_boundary_nodes mg))"
    and b: "is_boundary lat c"
  from a have cb: "\<forall>i\<in>set (closed_boundary_nodes mg). i < number_of_nodes mg" by simp
  from initial_node_state_ok [OF cb] a
  have "\<forall>k<number_of_nodes mg. init ! k =
          (if k \<in> set (closed_boundary_nodes mg) then 0
           else if node_y mg ! k > 50 then 2
           else if node_y mg ! k < 10 then 1 else 0)"
    by auto
  moreover from a b have "c \<in> set (closed_boundary_nodes mg)" by simp
  ultimately have "init ! c = 0" using cb by simp
  with reachable_boundary [OF assms b] show "node_state s ! c = 0" by simp
qed

theorem boundary_never_scheduled_witness:
  "initial_node_state \<lparr>node_y = [5, 5, 20, 20], closed_boundary_nodes = [0, 3]\<rparr>
      = Inr [0, 1, 0, 0]
   \<and> reachable setup_transition_list row_lattice unit_rng [0, 1, 0, 0]
        (create_engine setup_transition_list row_lattice unit_rng [0, 1, 0, 0])
   \<and> total_rate setup_transition_list (link_pair_state [0, 1, 0, 0] (links row_lattice ! 0)) = 50
   \<and> map ev_link (queue (create_engine setup_transition_list row_lattice unit_rng [0, 1, 0, 0])) = [1]
   \<and> map_option node_state (after (engine_step setup_transition_list row_lattice unit_rng 1
        (create_engine setup_transition_list row_lattice unit_rng [0, 1, 0, 0])))
      = Some [0, 0, 1, 0]
   \<and> total_rate setup_transition_list (link_pair_state [0, 0, 1, 0] (links row_lattice ! 2)) = 50
   \<and> map_option (map ev_link \<circ> queue)
        (after (engine_step setup_transition_list row_lattice unit_rng 1
          (create_engine setup_transition_list row_lattice unit_rng [0, 1, 0, 0])))
      = Some [1, 1]"
proof -
  let ?s0 = "create_engine setup_transition_list row_lattice unit_rng [0, 1, 0, 0]"
  let ?r = "after (engine_step setup_transition_list row_lattice unit_rng 1 ?s0)"
  have i: "initial_node_state \<lparr>node_y = [5, 5, 20, 20], closed_boundary_nodes = [0, 3]\<rparr>
      = Inr [0, 1, 0, 0]" by code_simp
  have r0: "reachable setup_transition_list row_lattice unit_rng [0, 1, 0, 0] ?s0"
    by (rule reachable.created)
  have t0: "total_rate setup_transition_list (link_pair_state [0, 1, 0, 0] (links row_lattice ! 0)) = 50"
    by code_simp
  have q0: "map ev_link (queue ?s0) = [1]" by code_simp
  have c1: "map_option node_state ?r = Some [0, 0, 1, 0]" by code_simp
  have t1: "total_rate setup_transition_list (link_pair_state [0, 0, 1, 0] (links row_lattice ! 2)) = 50"
    by code_simp
  have q1: "map_option (map ev_link \<circ> queue) ?r = Some [1, 1]" by code_simp
  from c1 obtain s1 where st: "?r = Some s1" by auto
  have r1: "reachable setup_transition_list row_lattice unit_rng [0, 1, 0, 0] s1"
    by (rule reachable.stepped [OF r0 st])
  from boundary_never_scheduled [OF r1]
  have "\<forall>c. is_boundary row_lattice c \<longrightarrow> node_state s1 ! c = [0, 1, 0, 0] ! c" by blast
  with i r0 t0 q0 c1 t1 q1 show ?thesis by blast
qed


end
